theory Spec2Isabelle
  imports Main
begin

section \<open>The connection pool of \<^verbatim>\<open>conn.go\<close>\<close>

text \<open>
  The pool is the Go struct \<^verbatim>\<open>Conn\<close>: two buffered channels, three plain fields,
  a constructor callback and a mutex. The model is sequentially consistent and runs one
  call at a time: every call either returns, or stops at the point where the goroutine
  would wait for another goroutine (\<open>Blocked\<close>), or panics.

  \<^item> A \<^verbatim>\<open>*Poolable\<close> is its address, a natural number. What the outside world answers
    about a resource at the time of a call is the environment \<open>env\<close>: whether its
    \<^verbatim>\<open>Done()\<close> channel is ready, and what \<^verbatim>\<open>Conn.Close()\<close> returns.
  \<^item> The channel \<^verbatim>\<open>notice\<close> carries empty structs, so only its length matters. The
    channel \<^verbatim>\<open>pool\<close> is its buffer, oldest element first, and the flag set by
    \<^verbatim>\<open>close(conn.pool)\<close>. Both channels are made with capacity \<^verbatim>\<open>max\<close>.
  \<^item> \<^verbatim>\<open>builder\<close> is a closure with hidden state: \<open>builder s k\<close> is what its \<open>k\<close>-th
    invocation returns, and \<open>ncalls\<close> counts the invocations made so far.
  \<^item> \<open>closelog\<close> records the effect on the outside world: every resource whose
    \<^verbatim>\<open>Conn.Close()\<close> was invoked, in order.
  \<^item> \<^verbatim>\<open>active\<close> and \<^verbatim>\<open>max\<close> are Go \<^verbatim>\<open>int\<close>; they are modelled as unbounded integers
    (\<^verbatim>\<open>active\<close> moves by one per constructed or closed resource).
  \<^item> \<^verbatim>\<open>mutex\<close> is true while the lock is held. A call that finds it held waits.
  \<^item> The constructor returns an error or a resource that is not \<^verbatim>\<open>nil\<close>, and callers
    pass resources that are not \<^verbatim>\<open>nil\<close>; the only \<^verbatim>\<open>nil\<close> of the model is the one a
    receive from the closed, drained channel yields.
\<close>

type_synonym Poolable = nat

datatype error = PoolClosed | InvalidConfig | External string

datatype 'a result = Ok 'a | Err error | Blocked | Panicked | OutOfFuel

record env =
  Done :: "Poolable \<Rightarrow> bool"
  Conn_Close :: "Poolable \<Rightarrow> error option"

record Conn =
  notice :: nat
  pool :: "Poolable list"
  pool_closed :: bool
  max' :: int
  active :: int
  closed :: bool
  builder :: "nat \<Rightarrow> error + Poolable"
  mutex :: bool
  ncalls :: nat
  closelog :: "Poolable list"

subsection \<open>acquire\<close>

text \<open>
  The first \<^verbatim>\<open>select\<close> takes the head of the buffer when there is one; a closed and
  drained channel yields the zero value \<^verbatim>\<open>nil\<close> at once (\<open>Ok None\<close>). Otherwise the
  \<^verbatim>\<open>default\<close> branch locks the mutex. At capacity it unlocks and waits on both
  channels: the buffer is still empty, so only a pending notice lets it go on, by
  \<^verbatim>\<open>goto acquire\<close>. Below capacity it invokes the constructor under the lock, sends the
  new resource into the empty buffer and receives it back.
\<close>

function acquire :: "Conn \<Rightarrow> Poolable option result \<times> Conn" where
  "acquire s =
     (case pool s of
        c # cs \<Rightarrow> (Ok (Some c), s\<lparr>pool := cs\<rparr>)
      | [] \<Rightarrow>
          if pool_closed s then (Ok None, s)
          else if mutex s then (Blocked, s)
          else if active s \<ge> max' s then
            (if notice s > 0 then acquire (s\<lparr>notice := notice s - 1\<rparr>)
             else (Blocked, s))
          else
            (case builder s (ncalls s) of
               Inl e \<Rightarrow> (Err e, s\<lparr>ncalls := ncalls s + 1\<rparr>)
             | Inr c \<Rightarrow>
                 let s1 = s\<lparr>ncalls := ncalls s + 1, active := active s + 1\<rparr>
                 in if length (pool s1) < nat (max' s1) then (Ok (Some c), s1)
                    else (Blocked, s1\<lparr>mutex := True\<rparr>)))"
  by pat_completeness auto
termination
  by (relation "measure notice") auto

declare acquire.simps [simp del]

subsection \<open>Close\<close>

text \<open>
  \<^verbatim>\<open>Close\<close> locks, invokes the resource's own close, and on an error returns it at
  once: without the decrement, without a notice and without unlocking. Otherwise it
  decrements \<^verbatim>\<open>active\<close>, sends one notice if the notice channel is empty, and unlocks.
\<close>

definition Close :: "env \<Rightarrow> Conn \<Rightarrow> Poolable \<Rightarrow> unit result \<times> Conn" where
  "Close E s closer =
     (if mutex s then (Blocked, s)
      else
        let s1 = s\<lparr>mutex := True, closelog := closelog s @ [closer]\<rparr>
        in case Conn_Close E closer of
             Some e \<Rightarrow> (Err e, s1)
           | None \<Rightarrow>
               let s2 = s1\<lparr>active := active s1 - 1\<rparr>
               in if notice s2 = 0 then
                    (if 0 < nat (max' s2) then (Ok (), s2\<lparr>notice := 1, mutex := False\<rparr>)
                     else (Blocked, s2))
                  else (Ok (), s2\<lparr>mutex := False\<rparr>))"

subsection \<open>Acquire\<close>

text \<open>
  The \<^verbatim>\<open>for\<close> loop of \<^verbatim>\<open>Acquire\<close> can run for ever (a constructor that only builds
  expired resources), so it takes fuel: one unit per iteration. The error that
  \<^verbatim>\<open>Close\<close> returns is dropped by the loop. \<^verbatim>\<open>closer.Done()\<close> on the \<^verbatim>\<open>nil\<close>
  received from a closed channel is a nil dereference.
\<close>

fun Acquire_loop :: "nat \<Rightarrow> env \<Rightarrow> Conn \<Rightarrow> Poolable result \<times> Conn" where
  "Acquire_loop 0 E s = (OutOfFuel, s)"
| "Acquire_loop (Suc n) E s =
     (case acquire s of
        (Err e, s1) \<Rightarrow> (Err e, s1)
      | (Blocked, s1) \<Rightarrow> (Blocked, s1)
      | (Panicked, s1) \<Rightarrow> (Panicked, s1)
      | (OutOfFuel, s1) \<Rightarrow> (OutOfFuel, s1)
      | (Ok None, s1) \<Rightarrow> (Panicked, s1)
      | (Ok (Some closer), s1) \<Rightarrow>
          if Done E closer then
            (case Close E s1 closer of
               (Blocked, s2) \<Rightarrow> (Blocked, s2)
             | (_, s2) \<Rightarrow> Acquire_loop n E s2)
          else (Ok closer, s1))"

definition Acquire :: "nat \<Rightarrow> env \<Rightarrow> Conn \<Rightarrow> Poolable result \<times> Conn" where
  "Acquire n E s = (if closed s then (Err PoolClosed, s) else Acquire_loop n E s)"

subsection \<open>Regain\<close>

text \<open>
  A send on a closed channel panics; a send on a full buffer waits for a receiver.
\<close>

definition Regain :: "Conn \<Rightarrow> Poolable \<Rightarrow> unit result \<times> Conn" where
  "Regain s closer =
     (if closed s then (Err PoolClosed, s)
      else if pool_closed s then (Panicked, s)
      else if length (pool s) < nat (max' s) then (Ok (), s\<lparr>pool := pool s @ [closer]\<rparr>)
      else (Blocked, s))"

subsection \<open>Release\<close>

text \<open>
  The \<^verbatim>\<open>range\<close> loop over the closed channel receives what is buffered and ends. Each
  round decrements \<^verbatim>\<open>active\<close> and invokes the resource's close, whose result is
  dropped. Closing a channel a second time panics.
\<close>

function Release_range :: "Conn \<Rightarrow> Conn" where
  "Release_range s =
     (case pool s of
        [] \<Rightarrow> s
      | closer # cs \<Rightarrow>
          Release_range
            (s\<lparr>pool := cs, active := active s - 1, closelog := closelog s @ [closer]\<rparr>))"
  by pat_completeness auto
termination
  by (relation "measure (\<lambda>s. length (pool s))") auto

declare Release_range.simps [simp del]

definition Release :: "Conn \<Rightarrow> unit result \<times> Conn" where
  "Release s =
     (if closed s then (Err PoolClosed, s)
      else if mutex s then (Blocked, s)
      else if pool_closed s then (Panicked, s\<lparr>mutex := True\<rparr>)
      else (Ok (), (Release_range (s\<lparr>mutex := True, pool_closed := True\<rparr>))
                     \<lparr>closed := True, mutex := False\<rparr>))"

subsection \<open>NewManager\<close>

function NewManager_loop :: "Conn \<Rightarrow> int \<Rightarrow> Conn result \<times> nat" where
  "NewManager_loop conn i =
     (if i < max' conn then
        (case builder conn (ncalls conn) of
           Inl e \<Rightarrow> (Err e, ncalls conn + 1)
         | Inr closer \<Rightarrow>
             if length (pool conn) < nat (max' conn) then
               NewManager_loop
                 (conn\<lparr>ncalls := ncalls conn + 1, active := active conn + 1,
                       pool := pool conn @ [closer]\<rparr>) (i + 1)
             else (Blocked, ncalls conn + 1))
      else (Ok conn, ncalls conn))"
  by pat_completeness auto
termination
  by (relation "measure (\<lambda>(conn, i). nat (max' conn - i))") auto

declare NewManager_loop.simps [simp del]

text \<open>
  Before the loop the struct literal makes the two channels with capacity \<^verbatim>\<open>max\<close>:
  \<^verbatim>\<open>make(chan struct{}, max)\<close>, then \<^verbatim>\<open>make(chan *Poolable, max)\<close>. \<^verbatim>\<open>make\<close> panics
  when the runtime cannot allocate a channel of that capacity. Which capacities those
  are is decided by the Go runtime and the platform, not by \<^verbatim>\<open>conn.go\<close>, so it is a
  parameter: for each of the two element types, the largest capacity for which
  \<^verbatim>\<open>make\<close> returns a channel.
\<close>

record runtime =
  notice_chan_limit :: int
  pool_chan_limit :: int

definition make_chan :: "int \<Rightarrow> int \<Rightarrow> bool" where
  "make_chan limit n \<longleftrightarrow> 0 \<le> n \<and> n \<le> limit"

text \<open>
  The second component is the number of constructor invocations made, whether or not
  a pool is produced.
\<close>

definition NewManager ::
  "runtime \<Rightarrow> int \<Rightarrow> (nat \<Rightarrow> error + Poolable) \<Rightarrow> Conn result \<times> nat" where
  "NewManager R mx b =
     (if mx \<le> 0 then (Err InvalidConfig, 0)
      else if \<not> make_chan (notice_chan_limit R) mx then (Panicked, 0)
      else if \<not> make_chan (pool_chan_limit R) mx then (Panicked, 0)
      else NewManager_loop
             \<lparr>notice = 0, pool = [], pool_closed = False, max' = mx, active = 0,
              closed = False, builder = b, mutex = False, ncalls = 0, closelog = []\<rparr> 0)"

section \<open>Sequences of calls\<close>

text \<open>
  A caller's history is a list of calls, each made in the environment of its time; a
  call that blocks or panics leaves the state it stopped in. \<open>built\<close> lists the
  resources the constructor has returned so far, in order. \<open>accounted\<close> is the
  bookkeeping invariant: \<^verbatim>\<open>active\<close> never exceeds \<^verbatim>\<open>max\<close>, and it is at least the
  number of resources built minus the number of close invocations.
\<close>

datatype call = CallAcquire nat | CallRegain Poolable | CallClose Poolable | CallRelease

fun exec :: "env \<times> call \<Rightarrow> Conn \<Rightarrow> Conn" where
  "exec (E, CallAcquire n) s = snd (Acquire n E s)"
| "exec (E, CallRegain closer) s = snd (Regain s closer)"
| "exec (E, CallClose closer) s = snd (Close E s closer)"
| "exec (E, CallRelease) s = snd (Release s)"

fun run :: "(env \<times> call) list \<Rightarrow> Conn \<Rightarrow> Conn" where
  "run [] s = s"
| "run (c # cs) s = run cs (exec c s)"

definition built :: "Conn \<Rightarrow> Poolable list" where
  "built s = concat (map (\<lambda>k. case builder s k of Inl e \<Rightarrow> [] | Inr c \<Rightarrow> [c]) [0..<ncalls s])"

definition accounted :: "int \<Rightarrow> (nat \<Rightarrow> error + Poolable) \<Rightarrow> Conn \<Rightarrow> bool" where
  "accounted mx b s \<longleftrightarrow>
     max' s = mx \<and> builder s = b \<and> active s \<le> mx \<and>
     int (length (built s)) \<le> active s + int (length (closelog s))"

text \<open>
  The ownership discipline of callers: \<open>run_owned\<close> runs a history while keeping the list
  of resources checked out (returned by \<^verbatim>\<open>Acquire\<close> and neither put back by a
  successful \<^verbatim>\<open>Regain\<close> nor handed to \<^verbatim>\<open>Close\<close>), and is \<open>None\<close> when a call
  returns or closes a resource its caller does not hold. \<open>room k\<close> says that the
  buffered resources and \<open>k\<close> checked-out ones are all counted in \<^verbatim>\<open>active\<close>.
\<close>

fun run_owned :: "(env \<times> call) list \<Rightarrow> Conn \<Rightarrow> Poolable list \<Rightarrow> (Conn \<times> Poolable list) option" where
  "run_owned [] s h = Some (s, h)"
| "run_owned ((E, CallAcquire n) # cs) s h =
     (case Acquire n E s of
        (Ok c, s') \<Rightarrow> run_owned cs s' (c # h)
      | (_, s') \<Rightarrow> run_owned cs s' h)"
| "run_owned ((E, CallRegain c) # cs) s h =
     (if c \<in> set h then
        (case Regain s c of
           (Ok _, s') \<Rightarrow> run_owned cs s' (remove1 c h)
         | (_, s') \<Rightarrow> run_owned cs s' h)
      else None)"
| "run_owned ((E, CallClose c) # cs) s h =
     (if c \<in> set h then run_owned cs (snd (Close E s c)) (remove1 c h) else None)"
| "run_owned ((E, CallRelease) # cs) s h = run_owned cs (snd (Release s)) h"

definition room :: "nat \<Rightarrow> Conn \<Rightarrow> bool" where
  "room k s \<longleftrightarrow>
     int (length (pool s)) + int k \<le> active s \<and> active s \<le> max' s \<and>
     (pool_closed s \<longrightarrow> closed s)"

section \<open>Example data\<close>

text \<open>
  A runtime that makes channels of empty structs of any capacity an \<^verbatim>\<open>int\<close> holds
  and channels of pointers up to capacity \<open>2 ^ 45\<close>. A constructor that always succeeds and one whose second invocation fails; the pool
  \<^verbatim>\<open>NewManager(2, ex_builder)\<close> returns, the same pool with resource 10 checked out,
  the same pool after \<^verbatim>\<open>Release\<close>, and a pool of capacity one; environments in which
  all resources are live and close well, in which every close fails, and in which the
  signal of resource 10 has fired.
\<close>

definition ex_runtime :: runtime where
  "ex_runtime = \<lparr>notice_chan_limit = 2 ^ 63 - 1, pool_chan_limit = 2 ^ 45\<rparr>"

definition ex_builder :: "nat \<Rightarrow> error + Poolable" where
  "ex_builder k = Inr (k + 10)"

definition ex_flaky :: "nat \<Rightarrow> error + Poolable" where
  "ex_flaky k = (if k = 1 then Inl (External ''dial refused'') else Inr (k + 10))"


definition ex_refusing :: "nat \<Rightarrow> error + Poolable" where
  "ex_refusing k = Inl (External ''dial refused'')"

definition ex_pool :: Conn where
  "ex_pool = \<lparr>notice = 0, pool = [10, 11], pool_closed = False, max' = 2, active = 2,
     closed = False, builder = ex_builder, mutex = False, ncalls = 2, closelog = []\<rparr>"

definition ex_env :: env where
  "ex_env = \<lparr>Done = (\<lambda>c. False), Conn_Close = (\<lambda>c. None)\<rparr>"

definition ex_calls :: "(env \<times> call) list" where
  "ex_calls =
     [(ex_env, CallAcquire 1), (ex_env, CallClose 10), (ex_env, CallAcquire 1),
      (ex_env, CallRegain 11), (ex_env, CallAcquire 1), (ex_env, CallClose 11),
      (ex_env, CallAcquire 1), (ex_env, CallRelease)]"

definition ex_env_broken :: env where
  "ex_env_broken =
     \<lparr>Done = (\<lambda>c. False), Conn_Close = (\<lambda>c. Some (External ''broken pipe''))\<rparr>"

definition ex_env_expired :: env where
  "ex_env_expired = \<lparr>Done = (\<lambda>c. c = 10), Conn_Close = (\<lambda>c. None)\<rparr>"

definition ex_out :: Conn where
  "ex_out = ex_pool\<lparr>pool := [11]\<rparr>"

definition ex_released :: Conn where
  "ex_released = \<lparr>notice = 0, pool = [], pool_closed = True, max' = 2, active = 0,
     closed = True, builder = ex_builder, mutex = False, ncalls = 2, closelog = [10, 11]\<rparr>"

definition ex_single :: Conn where
  "ex_single = \<lparr>notice = 0, pool = [10], pool_closed = False, max' = 1, active = 1,
     closed = False, builder = ex_builder, mutex = False, ncalls = 1, closelog = []\<rparr>"

definition ex_after :: "(env \<times> call) list" where
  "ex_after =
     [(ex_env, CallAcquire 3), (ex_env, CallClose 10), (ex_env, CallRegain 11),
      (ex_env, CallRelease)]"

definition ex_env_expired_broken :: env where
  "ex_env_expired_broken =
     \<lparr>Done = (\<lambda>c. c = 10), Conn_Close = (\<lambda>c. Some (External ''broken pipe''))\<rparr>"

definition ex_env_all_expired_broken :: env where
  "ex_env_all_expired_broken =
     \<lparr>Done = (\<lambda>c. True), Conn_Close = (\<lambda>c. Some (External ''broken pipe''))\<rparr>"

definition ex_locked :: Conn where
  "ex_locked = ex_out\<lparr>mutex := True, closelog := [10]\<rparr>"

section \<open>The bookkeeping invariant\<close>

lemma Release_range_eq:
  "Release_range s =
     s\<lparr>pool := [], active := active s - int (length (pool s)),
       closelog := closelog s @ pool s\<rparr>"
proof (induction "pool s" arbitrary: s)
  case Nil
  then show ?case by (subst Release_range.simps) simp
next
  case (Cons c cs)
  from Cons.hyps(2) have p: "pool s = c # cs" by simp
  let ?s = "s\<lparr>pool := cs, active := active s - 1, closelog := closelog s @ [c]\<rparr>"
  have "Release_range s = Release_range ?s"
    using p by (subst Release_range.simps) simp
  also have "\<dots> = ?s\<lparr>pool := [], active := active ?s - int (length (pool ?s)),
       closelog := closelog ?s @ pool ?s\<rparr>"
    by (rule Cons.hyps(1)) simp
  finally show ?case using p by simp
qed

lemma built_ncalls:
  "built (s\<lparr>ncalls := ncalls s + 1\<rparr>) =
     built s @ (case builder s (ncalls s) of Inl e \<Rightarrow> [] | Inr c \<Rightarrow> [c])"
  by (simp add: built_def)

lemma built_cong:
  "builder t = builder s \<Longrightarrow> ncalls t = ncalls s \<Longrightarrow> built t = built s"
  by (simp add: built_def)

lemma acquire_accounted: "accounted mx b s \<Longrightarrow> accounted mx b (snd (acquire s))"
proof (induction s rule: acquire.induct)
  case (1 s)
  show ?case
  proof (cases "pool s = [] \<and> \<not> pool_closed s \<and> \<not> mutex s \<and> max' s \<le> active s \<and> 0 < notice s")
    case True
    then have "acquire s = acquire (s\<lparr>notice := notice s - 1\<rparr>)"
      by (subst acquire.simps) simp
    moreover have "accounted mx b (s\<lparr>notice := notice s - 1\<rparr>)"
      using "1.prems" by (auto simp: accounted_def built_def)
    ultimately show ?thesis using "1.IH" True by simp
  next
    case False
    then show ?thesis
      using "1.prems"
      by (subst acquire.simps)
         (auto simp: accounted_def built_def Let_def split: list.splits sum.splits)
  qed
qed

lemma Close_accounted: "accounted mx b s \<Longrightarrow> accounted mx b (snd (Close E s c))"
  by (auto simp: Close_def accounted_def built_def Let_def split: option.splits)

lemma Acquire_loop_accounted: "accounted mx b s \<Longrightarrow> accounted mx b (snd (Acquire_loop n E s))"
proof (induction n arbitrary: s)
  case 0
  then show ?case by simp
next
  case (Suc n)
  obtain r s1 where a: "acquire s = (r, s1)" by (cases "acquire s")
  with Suc.prems acquire_accounted [of mx b s] have s1: "accounted mx b s1" by simp
  show ?case
  proof (cases r)
    case (Ok x)
    show ?thesis
    proof (cases x)
      case None
      with a Ok s1 show ?thesis by simp
    next
      case (Some c)
      obtain q s2 where c: "Close E s1 c = (q, s2)" by (cases "Close E s1 c")
      with s1 Close_accounted [of mx b s1 E c] have s2: "accounted mx b s2" by simp
      from Suc.IH [OF s2] a Ok Some c s1 s2 show ?thesis
        by (cases q) simp_all
    qed
  qed (use a s1 in simp_all)
qed

lemma Regain_accounted: "accounted mx b s \<Longrightarrow> accounted mx b (snd (Regain s c))"
  by (auto simp: Regain_def accounted_def built_def)

lemma Release_accounted: "accounted mx b s \<Longrightarrow> accounted mx b (snd (Release s))"
  by (auto simp: Release_def Release_range_eq accounted_def built_def)

lemma exec_accounted: "accounted mx b s \<Longrightarrow> accounted mx b (exec c s)"
  by (cases "(c, s)" rule: exec.cases)
     (simp_all add: Acquire_def Acquire_loop_accounted Regain_accounted Close_accounted
        Release_accounted)

lemma run_accounted: "accounted mx b s \<Longrightarrow> accounted mx b (run cs s)"
  by (induction cs arbitrary: s) (simp_all add: exec_accounted)


lemma NewManager_loop_accounted:
  "NewManager_loop conn i = (Ok s, k) \<Longrightarrow> active conn = i \<Longrightarrow> i \<le> max' conn \<Longrightarrow>
   int (length (built conn)) \<le> active conn + int (length (closelog conn)) \<Longrightarrow>
   accounted (max' conn) (builder conn) s"
proof (induction conn i rule: NewManager_loop.induct)
  case (1 conn i)
  show ?case
  proof (cases "i < max' conn")
    case False
    with "1.prems" show ?thesis
      by (subst (asm) NewManager_loop.simps) (auto simp: accounted_def)
  next
    case True
    show ?thesis
    proof (cases "builder conn (ncalls conn)")
      case (Inl e)
      with True "1.prems"(1) show ?thesis
        by (subst (asm) NewManager_loop.simps) simp
    next
      case (Inr c)
      let ?conn = "conn\<lparr>ncalls := ncalls conn + 1, active := active conn + 1,
                       pool := pool conn @ [c]\<rparr>"
      show ?thesis
      proof (cases "length (pool conn) < nat (max' conn)")
        case False
        with True Inr "1.prems"(1) show ?thesis
          by (subst (asm) NewManager_loop.simps) simp
      next
        case room: True
        with True Inr "1.prems"(1) have "NewManager_loop ?conn (i + 1) = (Ok s, k)"
          by (subst (asm) NewManager_loop.simps) simp
        moreover have "built ?conn = built conn @ [c]"
          using Inr by (simp add: built_def)
        ultimately have "accounted (max' ?conn) (builder ?conn) s"
          using True Inr room "1.prems"(2-) by (intro "1.IH") simp_all
        then show ?thesis by simp
      qed
    qed
  qed
qed

lemma NewManager_accounted:
  assumes "NewManager R mx b = (Ok s, k)"
  shows "accounted mx b s"
proof -
  let ?c0 = "\<lparr>notice = 0, pool = [], pool_closed = False, max' = mx, active = 0,
              closed = False, builder = b, mutex = False, ncalls = 0, closelog = []\<rparr>"
  from assms have pos: "0 < mx" and l: "NewManager_loop ?c0 0 = (Ok s, k)"
    by (auto simp: NewManager_def split: if_splits)
  have "accounted (max' ?c0) (builder ?c0) s"
    using l pos by (intro NewManager_loop_accounted [where i = 0 and k = k]) (simp_all add: built_def)
  then show ?thesis by simp
qed

section \<open>Buffered and checked-out resources are counted\<close>

lemma acquire_room:
  "room k s \<Longrightarrow> acquire s = (r, s') \<Longrightarrow>
   (case r of Ok (Some c) \<Rightarrow> room (Suc k) s' | _ \<Rightarrow> room k s')"
proof (induction s arbitrary: r s' rule: acquire.induct)
  case (1 s)
  show ?case
  proof (cases "pool s = [] \<and> \<not> pool_closed s \<and> \<not> mutex s \<and> max' s \<le> active s \<and> 0 < notice s")
    case True
    then have "acquire s = acquire (s\<lparr>notice := notice s - 1\<rparr>)"
      by (subst acquire.simps) simp
    moreover have "room k (s\<lparr>notice := notice s - 1\<rparr>)"
      using "1.prems"(1) by (simp add: room_def)
    ultimately show ?thesis using "1.IH" True "1.prems"(2) by auto
  next
    case False
    then show ?thesis
      using "1.prems"
      by (subst (asm) acquire.simps)
         (auto simp: room_def Let_def split: list.splits sum.splits if_splits)
  qed
qed

lemma Close_room_popped: "room (Suc k) s \<Longrightarrow> room k (snd (Close E s c))"
  by (auto simp: Close_def room_def Let_def split: option.splits)

lemma Acquire_loop_room:
  "room k s \<Longrightarrow> Acquire_loop n E s = (r, s') \<Longrightarrow>
   (case r of Ok c \<Rightarrow> room (Suc k) s' | _ \<Rightarrow> room k s')"
proof (induction n arbitrary: s)
  case 0
  then show ?case by auto
next
  case (Suc n)
  obtain q s1 where a: "acquire s = (q, s1)" by (cases "acquire s")
  note ar = acquire_room [OF Suc.prems(1) a]
  show ?case
  proof (cases q)
    case (Ok x)
    show ?thesis
    proof (cases x)
      case None
      with a Ok ar Suc.prems(2) show ?thesis by auto
    next
      case (Some c)
      with Ok ar have r1: "room (Suc k) s1" by simp
      show ?thesis
      proof (cases "Done E c")
        case False
        with a Ok Some r1 Suc.prems(2) show ?thesis by auto
      next
        case True
        obtain p s2 where c: "Close E s1 c = (p, s2)" by (cases "Close E s1 c")
        with Close_room_popped [OF r1, of E c] have r2: "room k s2" by simp
        show ?thesis
        proof (cases p)
          case Blocked
          with a Ok Some True c r2 Suc.prems(2) show ?thesis by auto
        next
          case (Ok u)
          with a \<open>q = Ok x\<close> Some True c Suc.prems(2) have "Acquire_loop n E s2 = (r, s')" by simp
          with r2 show ?thesis by (rule Suc.IH)
        next
          case (Err e)
          with a \<open>q = Ok x\<close> Some True c Suc.prems(2) have "Acquire_loop n E s2 = (r, s')" by simp
          with r2 show ?thesis by (rule Suc.IH)
        next
          case Panicked
          with a \<open>q = Ok x\<close> Some True c Suc.prems(2) have "Acquire_loop n E s2 = (r, s')" by simp
          with r2 show ?thesis by (rule Suc.IH)
        next
          case OutOfFuel
          with a \<open>q = Ok x\<close> Some True c Suc.prems(2) have "Acquire_loop n E s2 = (r, s')" by simp
          with r2 show ?thesis by (rule Suc.IH)
        qed
      qed
    qed
  qed (use a ar Suc.prems(2) in auto)
qed

lemma Acquire_room:
  "room k s \<Longrightarrow> Acquire n E s = (r, s') \<Longrightarrow>
   (case r of Ok c \<Rightarrow> room (Suc k) s' | _ \<Rightarrow> room k s')"
  by (cases "closed s") (auto simp: Acquire_def dest: Acquire_loop_room)

lemma Regain_room_held:
  "room (Suc k) s \<Longrightarrow> Regain s c = (r, s') \<Longrightarrow>
   (case r of Ok u \<Rightarrow> room k s' | _ \<Rightarrow> room (Suc k) s')"
  by (auto simp: Regain_def room_def split: if_splits)

lemma Release_room: "room k s \<Longrightarrow> room k (snd (Release s))"
  by (auto simp: Release_def Release_range_eq room_def)

lemma run_owned_room:
  "room (length h) s \<Longrightarrow> run_owned cs s h = Some (s', h') \<Longrightarrow> room (length h') s'"
proof (induction cs arbitrary: s h)
  case Nil
  then show ?case by simp
next
  case (Cons x cs)
  obtain E c where x: "x = (E, c)" by (cases x)
  show ?case
  proof (cases c)
    case (CallAcquire n)
    obtain r s1 where a: "Acquire n E s = (r, s1)" by (cases "Acquire n E s")
    note ar = Acquire_room [OF Cons.prems(1) a]
    show ?thesis
    proof (cases r)
      case (Ok d)
      with ar have "room (length (d # h)) s1" by simp
      moreover from Cons.prems(2) x CallAcquire a Ok
      have "run_owned cs s1 (d # h) = Some (s', h')" by simp
      ultimately show ?thesis by (rule Cons.IH)
    next
      case (Err e)
      with ar have "room (length h) s1" by simp
      moreover from Cons.prems(2) x CallAcquire a Err
      have "run_owned cs s1 h = Some (s', h')" by simp
      ultimately show ?thesis by (rule Cons.IH)
    next
      case Blocked
      with ar have "room (length h) s1" by simp
      moreover from Cons.prems(2) x CallAcquire a Blocked
      have "run_owned cs s1 h = Some (s', h')" by simp
      ultimately show ?thesis by (rule Cons.IH)
    next
      case Panicked
      with ar have "room (length h) s1" by simp
      moreover from Cons.prems(2) x CallAcquire a Panicked
      have "run_owned cs s1 h = Some (s', h')" by simp
      ultimately show ?thesis by (rule Cons.IH)
    next
      case OutOfFuel
      with ar have "room (length h) s1" by simp
      moreover from Cons.prems(2) x CallAcquire a OutOfFuel
      have "run_owned cs s1 h = Some (s', h')" by simp
      ultimately show ?thesis by (rule Cons.IH)
    qed
  next
    case (CallRegain d)
    from Cons.prems(2) x CallRegain have m: "d \<in> set h" by (auto split: if_splits)
    then obtain k where k: "length h = Suc k" by (cases h) auto
    with m have l: "length (remove1 d h) = k" by (simp add: length_remove1)
    obtain r s1 where a: "Regain s d = (r, s1)" by (cases "Regain s d")
    note ar = Regain_room_held [OF Cons.prems(1) [unfolded k] a]
    show ?thesis
    proof (cases r)
      case (Ok u)
      with ar l have "room (length (remove1 d h)) s1" by simp
      moreover from Cons.prems(2) x CallRegain a Ok m
      have "run_owned cs s1 (remove1 d h) = Some (s', h')" by simp
      ultimately show ?thesis by (rule Cons.IH)
    next
      case (Err e)
      with ar k have "room (length h) s1" by simp
      moreover from Cons.prems(2) x CallRegain a Err m
      have "run_owned cs s1 h = Some (s', h')" by simp
      ultimately show ?thesis by (rule Cons.IH)
    next
      case Blocked
      with ar k have "room (length h) s1" by simp
      moreover from Cons.prems(2) x CallRegain a Blocked m
      have "run_owned cs s1 h = Some (s', h')" by simp
      ultimately show ?thesis by (rule Cons.IH)
    next
      case Panicked
      with ar k have "room (length h) s1" by simp
      moreover from Cons.prems(2) x CallRegain a Panicked m
      have "run_owned cs s1 h = Some (s', h')" by simp
      ultimately show ?thesis by (rule Cons.IH)
    next
      case OutOfFuel
      with ar k have "room (length h) s1" by simp
      moreover from Cons.prems(2) x CallRegain a OutOfFuel m
      have "run_owned cs s1 h = Some (s', h')" by simp
      ultimately show ?thesis by (rule Cons.IH)
    qed
  next
    case (CallClose d)
    from Cons.prems(2) x CallClose have m: "d \<in> set h" by (auto split: if_splits)
    then obtain k where k: "length h = Suc k" by (cases h) auto
    with m have l: "length (remove1 d h) = k" by (simp add: length_remove1)
    have "room (length (remove1 d h)) (snd (Close E s d))"
      using Cons.prems(1) k l by (simp add: Close_room_popped)
    moreover from Cons.prems(2) x CallClose m
    have "run_owned cs (snd (Close E s d)) (remove1 d h) = Some (s', h')" by simp
    ultimately show ?thesis by (rule Cons.IH)
  next
    case CallRelease
    have "room (length h) (snd (Release s))"
      using Cons.prems(1) by (rule Release_room)
    moreover from Cons.prems(2) x CallRelease
    have "run_owned cs (snd (Release s)) h = Some (s', h')" by simp
    ultimately show ?thesis by (rule Cons.IH)
  qed
qed

lemma NewManager_loop_room:
  "NewManager_loop conn i = (Ok s, k) \<Longrightarrow> active conn = i \<Longrightarrow> i \<le> max' conn \<Longrightarrow>
   int (length (pool conn)) = i \<Longrightarrow> \<not> pool_closed conn \<Longrightarrow> room 0 s"
proof (induction conn i rule: NewManager_loop.induct)
  case (1 conn i)
  show ?case
  proof (cases "i < max' conn")
    case False
    with "1.prems" show ?thesis
      by (subst (asm) NewManager_loop.simps) (auto simp: room_def)
  next
    case True
    show ?thesis
    proof (cases "builder conn (ncalls conn)")
      case (Inl e)
      with True "1.prems"(1) show ?thesis
        by (subst (asm) NewManager_loop.simps) simp
    next
      case (Inr c)
      let ?conn = "conn\<lparr>ncalls := ncalls conn + 1, active := active conn + 1,
                       pool := pool conn @ [c]\<rparr>"
      show ?thesis
      proof (cases "length (pool conn) < nat (max' conn)")
        case False
        with True Inr "1.prems"(1) show ?thesis
          by (subst (asm) NewManager_loop.simps) simp
      next
        case room: True
        with True Inr "1.prems"(1) have "NewManager_loop ?conn (i + 1) = (Ok s, k)"
          by (subst (asm) NewManager_loop.simps) simp
        then show ?thesis
          using True Inr room "1.prems"(2-) by (intro "1.IH") simp_all
      qed
    qed
  qed
qed

lemma NewManager_room:
  assumes "NewManager R mx b = (Ok s, k)"
  shows "room 0 s"
proof -
  let ?c0 = "\<lparr>notice = 0, pool = [], pool_closed = False, max' = mx, active = 0,
              closed = False, builder = b, mutex = False, ncalls = 0, closelog = []\<rparr>"
  from assms have pos: "0 < mx" and l: "NewManager_loop ?c0 0 = (Ok s, k)"
    by (auto simp: NewManager_def split: if_splits)
  show ?thesis
    using l pos by (intro NewManager_loop_room [where i = 0 and k = k and conn = ?c0]) simp_all
qed

lemma checked_out_has_room:
  assumes "NewManager R mx b = (Ok s0, k)" and "run_owned cs s0 [] = Some (s, h)"
    and "closer \<in> set h" and "\<not> closed s"
  shows "Regain s closer = (Ok (), s\<lparr>pool := pool s @ [closer]\<rparr>)"
proof -
  from assms(1) have "room (length ([] :: Poolable list)) s0"
    by (simp add: NewManager_room)
  then have r: "room (length h) s"
    using assms(2) by (rule run_owned_room)
  from assms(3) obtain j where "length h = Suc j" by (cases h) auto
  with r have "int (length (pool s)) + 1 \<le> max' s"
    by (simp add: room_def)
  then have "length (pool s) < nat (max' s)"
    by linarith
  with r assms(4) show ?thesis
    by (auto simp: Regain_def room_def)
qed

lemma run_owned_run: "run_owned cs s h = Some (s', h') \<Longrightarrow> s' = run cs s"
proof (induction cs arbitrary: s h)
  case Nil
  then show ?case by simp
next
  case (Cons x cs)
  obtain E c where x: "x = (E, c)" by (cases x)
  show ?case
  proof (cases c)
    case (CallAcquire n)
    obtain r s1 where a: "Acquire n E s = (r, s1)" by (cases "Acquire n E s")
    with Cons.prems x CallAcquire Cons.IH show ?thesis
      by (cases r) auto
  next
    case (CallRegain d)
    obtain r s1 where a: "Regain s d = (r, s1)" by (cases "Regain s d")
    with Cons.prems x CallRegain Cons.IH show ?thesis
      by (cases r) (auto split: if_splits)
  next
    case (CallClose d)
    with Cons.prems x Cons.IH show ?thesis by (auto split: if_splits)
  next
    case CallRelease
    with Cons.prems x Cons.IH show ?thesis by auto
  qed
qed

section \<open>The example states are states of the code\<close>

lemma ex_pool_built: "NewManager ex_runtime 2 ex_builder = (Ok ex_pool, 2)"
  by (simp add: NewManager_def make_chan_def ex_runtime_def NewManager_loop.simps ex_pool_def
        ex_builder_def)

lemma ex_single_built: "NewManager ex_runtime 1 ex_builder = (Ok ex_single, 1)"
  by (simp add: NewManager_def make_chan_def ex_runtime_def NewManager_loop.simps ex_single_def
        ex_builder_def)

lemma ex_out_acquired: "Acquire 1 ex_env ex_pool = (Ok 10, ex_out)"
  by (simp add: Acquire_def acquire.simps ex_pool_def ex_out_def ex_env_def)

lemma ex_released_by_Release: "Release ex_pool = (Ok (), ex_released)"
  by (simp add: Release_def Release_range.simps ex_pool_def ex_released_def)

section \<open>Bounds of the counter\<close>

text \<open>
  C1. Take any pool that \<^verbatim>\<open>NewManager\<close> returns and any sequence of \<^verbatim>\<open>Acquire\<close>,
  \<^verbatim>\<open>Regain\<close>, \<^verbatim>\<open>Close\<close> and \<^verbatim>\<open>Release\<close> calls on it. In the state reached
  \<open>active \<le> max\<close>, and \<open>max\<close> is the capacity given at construction. If every resource
  whose close was invoked is one the constructor built, and none was closed twice (by
  \<^verbatim>\<open>Close\<close>, by the loop of \<^verbatim>\<open>Acquire\<close> or by \<^verbatim>\<open>Release\<close>), then \<open>0 \<le> active\<close>.
  The same bounds hold when every caller returns and closes only what it has checked
  out: then \<^verbatim>\<open>active\<close> is at least the number of buffered plus checked-out resources.
\<close>

theorem active_within_bounds:
  assumes "NewManager R mx b = (Ok s0, k)"
  shows "(s = run cs s0 \<longrightarrow> active s \<le> max' s \<and> max' s = mx) \<and>
     (s = run cs s0 \<and> distinct (closelog s) \<and> set (closelog s) \<subseteq> set (built s) \<longrightarrow>
        0 \<le> active s) \<and>
     (run_owned cs s0 [] = Some (s, h) \<longrightarrow>
        int (length (pool s)) + int (length h) \<le> active s \<and> 0 \<le> active s \<and>
        active s \<le> max' s \<and> max' s = mx)"
proof -
  have upper: "active s \<le> max' s \<and> max' s = mx" if "s = run cs s0"
  proof -
    from that have "accounted mx b s"
      using assms by (simp add: NewManager_accounted run_accounted)
    then show ?thesis by (simp add: accounted_def)
  qed
  have lower: "0 \<le> active s"
    if a: "s = run cs s0 \<and> distinct (closelog s) \<and> set (closelog s) \<subseteq> set (built s)"
  proof -
    from a have acc: "accounted mx b s"
      using assms by (simp add: NewManager_accounted run_accounted)
    from a have d: "distinct (closelog s)" and c: "set (closelog s) \<subseteq> set (built s)"
      by blast+
    have "length (closelog s) = card (set (closelog s))"
      using d by (simp add: distinct_card)
    also have "\<dots> \<le> card (set (built s))"
      using c by (simp add: card_mono)
    also have "\<dots> \<le> length (built s)"
      by (rule card_length)
    finally show ?thesis using acc by (simp add: accounted_def)
  qed
  have owned: "int (length (pool s)) + int (length h) \<le> active s \<and> 0 \<le> active s \<and>
        active s \<le> max' s \<and> max' s = mx"
    if o: "run_owned cs s0 [] = Some (s, h)"
  proof -
    from assms have "room (length ([] :: Poolable list)) s0"
      by (simp add: NewManager_room)
    then have r: "room (length h) s"
      using o by (rule run_owned_room)
    from o have "s = run cs s0" by (rule run_owned_run)
    then have "accounted mx b s"
      using assms by (simp add: NewManager_accounted run_accounted)
    with r show ?thesis
      by (simp add: room_def accounted_def)
  qed
  from upper lower owned show ?thesis by blast
qed

theorem active_within_bounds_witness:
  "distinct (closelog (run ex_calls ex_pool)) \<and>
   set (closelog (run ex_calls ex_pool)) \<subseteq> set (built (run ex_calls ex_pool)) \<and>
   run_owned ex_calls ex_pool [] = Some (run ex_calls ex_pool, [12]) \<and>
   0 \<le> active (run ex_calls ex_pool) \<and>
   active (run ex_calls ex_pool) \<le> max' (run ex_calls ex_pool) \<and>
   active (run ex_calls ex_pool) = 1 \<and> max' (run ex_calls ex_pool) = 2"
proof -
  have r: "run ex_calls ex_pool =
      \<lparr>notice = 1, pool = [], pool_closed = True, max' = 2, active = 1,
       closed = True, builder = ex_builder, mutex = False, ncalls = 3,
       closelog = [10, 11]\<rparr>"
    by (simp add: ex_calls_def ex_pool_def ex_env_def Acquire_def acquire.simps Close_def
          Regain_def Release_def Release_range.simps ex_builder_def)
  have o: "run_owned ex_calls ex_pool [] = Some (run ex_calls ex_pool, [12])"
    unfolding r
    by (simp add: ex_calls_def ex_pool_def ex_env_def Acquire_def acquire.simps Close_def
          Regain_def Release_def Release_range.simps ex_builder_def)
  have b: "built (run ex_calls ex_pool) = [10, 11, 12]"
    by (simp add: r built_def ex_builder_def numeral_3_eq_3)
  have d: "distinct (closelog (run ex_calls ex_pool))"
    and c: "set (closelog (run ex_calls ex_pool)) \<subseteq> set (built (run ex_calls ex_pool))"
    by (simp_all add: b) (simp_all add: r)
  from active_within_bounds [OF ex_pool_built, of "run ex_calls ex_pool" ex_calls "[12]"] d c o
  show ?thesis
    by (simp add: r)
qed

section \<open>Construction\<close>

text \<open>
  Two facts about the construction loop, from any loop state in which \<open>i\<close> resources
  have been sent: while the constructor succeeds the loop runs to \<open>max\<close>, and the
  first failing invocation ends it with that error.
\<close>


lemma NewManager_loop_all_ok:
  "0 \<le> i \<Longrightarrow> length (pool conn) = nat i \<Longrightarrow> i \<le> max' conn \<Longrightarrow> nat (max' conn - i) = n \<Longrightarrow>
   (\<forall>k<n. \<exists>c. builder conn (ncalls conn + k) = Inr c) \<Longrightarrow>
   NewManager_loop conn i =
     (Ok (conn\<lparr>ncalls := ncalls conn + n, active := active conn + int n,
               pool := pool conn @ map (\<lambda>k. projr (builder conn k)) [ncalls conn ..< ncalls conn + n]\<rparr>),
      ncalls conn + n)"
proof (induction n arbitrary: conn i)
  case 0
  then have "i = max' conn" by simp
  then show ?case by (simp add: NewManager_loop.simps)
next
  case (Suc n)
  from Suc.prems have lt: "i < max' conn" by simp
  from Suc.prems obtain c where c: "builder conn (ncalls conn) = Inr c"
    by (metis add.right_neutral zero_less_Suc)
  let ?conn = "conn\<lparr>ncalls := ncalls conn + 1, active := active conn + 1, pool := pool conn @ [c]\<rparr>"
  have room: "length (pool conn) < nat (max' conn)" using Suc.prems lt by simp
  have step: "NewManager_loop conn i = NewManager_loop ?conn (i + 1)"
    using lt c room by (subst NewManager_loop.simps) simp
  have "\<forall>k<n. \<exists>c. builder ?conn (ncalls ?conn + k) = Inr c"
    using Suc.prems(5) by (auto dest: spec [where x = "Suc k" for k])
  moreover have "nat (max' ?conn - (i + 1)) = n" using Suc.prems by simp
  moreover have "length (pool ?conn) = nat (i + 1)" using Suc.prems by simp
  ultimately have "NewManager_loop ?conn (i + 1) =
     (Ok (?conn\<lparr>ncalls := ncalls ?conn + n, active := active ?conn + int n,
               pool := pool ?conn @ map (\<lambda>k. projr (builder ?conn k)) [ncalls ?conn ..< ncalls ?conn + n]\<rparr>),
      ncalls ?conn + n)"
    using Suc.prems lt by (intro Suc.IH) simp_all
  moreover have "[ncalls conn ..< ncalls conn + Suc n] = ncalls conn # [ncalls ?conn ..< ncalls ?conn + n]"
    by (simp add: upt_conv_Cons del: upt_Suc)
  ultimately show ?case using step c by (simp del: upt_Suc)
qed

lemma NewManager_loop_fails:
  "0 \<le> i \<Longrightarrow> length (pool conn) = nat i \<Longrightarrow> int k < max' conn - i \<Longrightarrow>
   (\<forall>j<k. \<exists>c. builder conn (ncalls conn + j) = Inr c) \<Longrightarrow>
   builder conn (ncalls conn + k) = Inl e \<Longrightarrow>
   NewManager_loop conn i = (Err e, ncalls conn + k + 1)"
proof (induction k arbitrary: conn i)
  case 0
  then show ?case by (subst NewManager_loop.simps) simp
next
  case (Suc k)
  from Suc.prems have lt: "i < max' conn" by simp
  from Suc.prems obtain c where c: "builder conn (ncalls conn) = Inr c"
    by (metis add.right_neutral zero_less_Suc)
  let ?conn = "conn\<lparr>ncalls := ncalls conn + 1, active := active conn + 1, pool := pool conn @ [c]\<rparr>"
  have room: "length (pool conn) < nat (max' conn)" using Suc.prems lt by simp
  have step: "NewManager_loop conn i = NewManager_loop ?conn (i + 1)"
    using lt c room by (subst NewManager_loop.simps) simp
  have "\<forall>j<k. \<exists>c. builder ?conn (ncalls ?conn + j) = Inr c"
    using Suc.prems(4) by (auto dest: spec [where x = "Suc j" for j])
  moreover have "builder ?conn (ncalls ?conn + k) = Inl e" using Suc.prems by simp
  moreover have "length (pool ?conn) = nat (i + 1)" using Suc.prems by simp
  ultimately have "NewManager_loop ?conn (i + 1) = (Err e, ncalls ?conn + k + 1)"
    using Suc.prems lt by (intro Suc.IH) simp_all
  then show ?case using step by simp
qed


text \<open>
  C2, as the code has it. \<^verbatim>\<open>NewManager\<close> with a capacity that is not positive fails
  with \<open>InvalidConfig\<close> and invokes the constructor zero times. With a positive
  capacity for which the runtime makes both channels, and a constructor whose first
  \<open>mx\<close> invocations succeed, it invokes the constructor exactly \<open>mx\<close> times and
  returns an open pool with \<open>active = mx\<close> whose buffer holds exactly the \<open>mx\<close>
  resources built, in the order built; if an invocation among the first \<open>mx\<close> fails,
  the result is that error and no pool. With a positive capacity for which the runtime
  does not make one of the channels, \<^verbatim>\<open>make\<close> panics before any constructor
  invocation.
\<close>

theorem NewManager_spec:
  "(mx \<le> 0 \<longrightarrow> NewManager R mx b = (Err InvalidConfig, 0)) \<and>
   (0 < mx \<and> mx \<le> notice_chan_limit R \<and> mx \<le> pool_chan_limit R \<and>
    (\<forall>k<nat mx. \<exists>c. b k = Inr c) \<longrightarrow>
      (\<exists>s. NewManager R mx b = (Ok s, nat mx) \<and> \<not> closed s \<and> \<not> pool_closed s \<and>
           active s = mx \<and> max' s = mx \<and> map Inr (pool s) = map b [0..<nat mx] \<and>
           length (pool s) = nat mx \<and> ncalls s = nat mx \<and> notice s = 0 \<and>
           \<not> mutex s \<and> closelog s = [] \<and> builder s = b)) \<and>
   (0 < mx \<and> mx \<le> notice_chan_limit R \<and> mx \<le> pool_chan_limit R \<and>
    k < nat mx \<and> (\<forall>j<k. \<exists>c. b j = Inr c) \<and> b k = Inl e \<longrightarrow>
      NewManager R mx b = (Err e, k + 1)) \<and>
   (0 < mx \<and> (notice_chan_limit R < mx \<or> pool_chan_limit R < mx) \<longrightarrow>
      NewManager R mx b = (Panicked, 0))"
proof -
  let ?c0 = "\<lparr>notice = 0, pool = [], pool_closed = False, max' = mx, active = 0,
              closed = False, builder = b, mutex = False, ncalls = 0, closelog = []\<rparr>"
  have 1: "NewManager R mx b = (Err InvalidConfig, 0)" if "mx \<le> 0"
    using that by (simp add: NewManager_def)
  have 2: "\<exists>s. NewManager R mx b = (Ok s, nat mx) \<and> \<not> closed s \<and> \<not> pool_closed s \<and>
           active s = mx \<and> max' s = mx \<and> map Inr (pool s) = map b [0..<nat mx] \<and>
           length (pool s) = nat mx \<and> ncalls s = nat mx \<and> notice s = 0 \<and>
           \<not> mutex s \<and> closelog s = [] \<and> builder s = b"
    if a: "0 < mx \<and> mx \<le> notice_chan_limit R \<and> mx \<le> pool_chan_limit R \<and>
      (\<forall>k<nat mx. \<exists>c. b k = Inr c)"
  proof -
    have "NewManager_loop ?c0 0 =
       (Ok (?c0\<lparr>ncalls := ncalls ?c0 + nat mx, active := active ?c0 + int (nat mx),
                 pool := pool ?c0 @ map (\<lambda>k. projr (builder ?c0 k)) [ncalls ?c0 ..< ncalls ?c0 + nat mx]\<rparr>),
        ncalls ?c0 + nat mx)"
      using a by (intro NewManager_loop_all_ok) simp_all
    moreover have "map Inr (map (\<lambda>k. projr (b k)) [0..<nat mx]) = map b [0..<nat mx]"
      using a by auto
    ultimately show ?thesis
      using a by (simp add: NewManager_def make_chan_def)
  qed
  have 3: "NewManager R mx b = (Err e, k + 1)"
    if a: "0 < mx \<and> mx \<le> notice_chan_limit R \<and> mx \<le> pool_chan_limit R \<and>
      k < nat mx \<and> (\<forall>j<k. \<exists>c. b j = Inr c) \<and> b k = Inl e"
  proof -
    from a have "int k < mx" by linarith
    then have "NewManager_loop ?c0 0 = (Err e, ncalls ?c0 + k + 1)"
      using a by (intro NewManager_loop_fails) simp_all
    then show ?thesis
      using a by (simp add: NewManager_def make_chan_def)
  qed
  have 4: "NewManager R mx b = (Panicked, 0)"
    if "0 < mx \<and> (notice_chan_limit R < mx \<or> pool_chan_limit R < mx)"
    using that by (auto simp: NewManager_def make_chan_def)
  from 1 2 3 4 show ?thesis by blast
qed

theorem NewManager_spec_witness:
  "NewManager ex_runtime 0 ex_builder = (Err InvalidConfig, 0) \<and>
   fst (NewManager ex_runtime 2 ex_builder) =
     Ok \<lparr>notice = 0, pool = [10, 11], pool_closed = False, max' = 2, active = 2,
         closed = False, builder = ex_builder, mutex = False, ncalls = 2, closelog = []\<rparr> \<and>
   snd (NewManager ex_runtime 2 ex_builder) = 2 \<and>
   NewManager ex_runtime 2 ex_flaky = (Err (External ''dial refused''), 2) \<and>
   NewManager ex_runtime (2 ^ 45 + 1) ex_builder = (Panicked, 0)"
proof -
  have lim: "(2::int) \<le> notice_chan_limit ex_runtime" "(2::int) \<le> pool_chan_limit ex_runtime"
    "pool_chan_limit ex_runtime < 2 ^ 45 + 1"
    by (simp_all add: ex_runtime_def)
  have "NewManager ex_runtime 0 ex_builder = (Err InvalidConfig, 0)"
    using NewManager_spec [where R = ex_runtime and mx = 0 and b = ex_builder and k = 0
        and e = PoolClosed]
    by simp
  moreover have "\<forall>k<nat 2. \<exists>c. ex_builder k = Inr c"
    by (simp add: ex_builder_def)
  then obtain s where s: "NewManager ex_runtime 2 ex_builder = (Ok s, nat 2)" "\<not> closed s"
      "\<not> pool_closed s" "active s = 2" "max' s = 2"
      "map Inr (pool s) = map ex_builder [0..<nat 2]" "ncalls s = nat 2" "notice s = 0"
      "\<not> mutex s" "closelog s = []" "builder s = ex_builder"
    using NewManager_spec [where R = ex_runtime and mx = 2 and b = ex_builder and k = 0
        and e = PoolClosed] lim
    by auto
  have "(map Inr (pool s) :: (error + Poolable) list) = [Inr 10, Inr 11]"
    using s(6) by (simp add: ex_builder_def numeral_2_eq_2)
  then have "pool s = [10, 11]" by (auto simp: map_eq_Cons_conv)
  then have "s = \<lparr>notice = 0, pool = [10, 11], pool_closed = False, max' = 2, active = 2,
         closed = False, builder = ex_builder, mutex = False, ncalls = 2, closelog = []\<rparr>"
    using s by (cases s) simp
  then have "fst (NewManager ex_runtime 2 ex_builder) =
     Ok \<lparr>notice = 0, pool = [10, 11], pool_closed = False, max' = 2, active = 2,
         closed = False, builder = ex_builder, mutex = False, ncalls = 2, closelog = []\<rparr>"
    "snd (NewManager ex_runtime 2 ex_builder) = 2"
    using s(1) by simp_all
  moreover have "NewManager ex_runtime 2 ex_flaky = (Err (External ''dial refused''), 2)"
    using NewManager_spec [where R = ex_runtime and mx = 2 and b = ex_flaky and k = 1
        and e = "External ''dial refused''"] lim
    by (simp add: ex_flaky_def)
  moreover have "NewManager ex_runtime (2 ^ 45 + 1) ex_builder = (Panicked, 0)"
    using NewManager_spec [where R = ex_runtime and mx = "2 ^ 45 + 1" and b = ex_builder
        and k = 0 and e = PoolClosed] lim
    by simp
  ultimately show ?thesis by simp
qed

text \<open>
  The claim as stated, for every capacity above zero, fails on a capacity the runtime
  makes no channel of pointers for: \<^verbatim>\<open>NewManager(1 << 62, ...)\<close> panics in \<^verbatim>\<open>make\<close>
  (eight bytes times \<open>2 ^ 62\<close> is beyond any address space), with a constructor that
  would succeed and with one that would fail alike: no constructor invocation, no
  pool, and no constructor error returned.
\<close>

theorem NewManager_huge_capacity_counterexample:
  "NewManager ex_runtime (2 ^ 62) ex_builder = (Panicked, 0) \<and>
   NewManager ex_runtime (2 ^ 62) ex_refusing = (Panicked, 0)"
  by (simp add: NewManager_def make_chan_def ex_runtime_def)

section \<open>Where Acquire consults the closed flag\<close>

text \<open>
  Neither \<^verbatim>\<open>acquire\<close> nor \<^verbatim>\<open>Close\<close> nor the loop of \<^verbatim>\<open>Acquire\<close> reads the flag: run
  from the same state with the flag set to anything, they give the same outcome.
\<close>

lemma acquire_closed_flag:
  "acquire (s\<lparr>closed := b\<rparr>) = (fst (acquire s), (snd (acquire s))\<lparr>closed := b\<rparr>)"
proof (induction s rule: acquire.induct)
  case (1 s)
  show ?case
  proof (cases "pool s = [] \<and> \<not> pool_closed s \<and> \<not> mutex s \<and> max' s \<le> active s \<and> 0 < notice s")
    case True
    then have "acquire s = acquire (s\<lparr>notice := notice s - 1\<rparr>)"
      by (subst acquire.simps) simp
    moreover have comm: "s\<lparr>closed := b, notice := notice s - 1\<rparr> = s\<lparr>notice := notice s - 1, closed := b\<rparr>"
      by (cases s) simp
    from True have "acquire (s\<lparr>closed := b\<rparr>) = acquire (s\<lparr>closed := b, notice := notice s - 1\<rparr>)"
      by (subst acquire.simps) simp
    then have "acquire (s\<lparr>closed := b\<rparr>) = acquire (s\<lparr>notice := notice s - 1, closed := b\<rparr>)"
      by (simp only: comm)
    ultimately show ?thesis using "1.IH" True by simp
  next
    case False
    then show ?thesis
      by (subst (1 2 3) acquire.simps)
         (auto simp: Let_def split: list.splits sum.splits)
  qed
qed

lemma Close_closed_flag:
  "Close E (s\<lparr>closed := b\<rparr>) c = (fst (Close E s c), (snd (Close E s c))\<lparr>closed := b\<rparr>)"
  by (auto simp: Close_def Let_def split: option.splits)

lemma Acquire_loop_closed_flag:
  "Acquire_loop n E (s\<lparr>closed := b\<rparr>) =
     (fst (Acquire_loop n E s), (snd (Acquire_loop n E s))\<lparr>closed := b\<rparr>)"
proof (induction n arbitrary: s)
  case 0
  show ?case by simp
next
  case (Suc n)
  obtain r s1 where a: "acquire s = (r, s1)" by (cases "acquire s")
  then have a': "acquire (s\<lparr>closed := b\<rparr>) = (r, s1\<lparr>closed := b\<rparr>)"
    by (simp add: acquire_closed_flag)
  show ?case
  proof (cases r)
    case (Ok x)
    show ?thesis
    proof (cases x)
      case None
      with a a' Ok show ?thesis by simp
    next
      case (Some c)
      obtain q s2 where c: "Close E s1 c = (q, s2)" by (cases "Close E s1 c")
      then have c': "Close E (s1\<lparr>closed := b\<rparr>) c = (q, s2\<lparr>closed := b\<rparr>)"
        by (simp add: Close_closed_flag)
      from Suc.IH [of s2] a a' Ok Some c c' show ?thesis
        by (cases q) simp_all
    qed
  qed (use a a' in simp_all)
qed

text \<open>
  C3, as the code has it. \<^verbatim>\<open>Acquire\<close> reads the closed flag once, on entry, and fails
  with \<open>PoolClosed\<close> there without touching the state. The iterations of its loop, the
  restart of \<^verbatim>\<open>acquire\<close> after a notice included, do not read the flag.
\<close>

theorem Acquire_checks_closed_on_entry:
  "Acquire n E s = (if closed s then (Err PoolClosed, s) else Acquire_loop n E s) \<and>
   acquire (s\<lparr>closed := b\<rparr>) = (fst (acquire s), (snd (acquire s))\<lparr>closed := b\<rparr>) \<and>
   Acquire_loop n E (s\<lparr>closed := b\<rparr>) =
     (fst (Acquire_loop n E s), (snd (Acquire_loop n E s))\<lparr>closed := b\<rparr>)"
  by (simp add: Acquire_def acquire_closed_flag Acquire_loop_closed_flag)

theorem Acquire_checks_closed_on_entry_witness:
  "Acquire 1 ex_env ex_released = (Err PoolClosed, ex_released) \<and>
   Acquire 1 ex_env ex_pool = Acquire_loop 1 ex_env ex_pool \<and>
   Acquire_loop 1 ex_env (ex_pool\<lparr>closed := True\<rparr>) = (Ok 10, ex_out\<lparr>closed := True\<rparr>)"
proof -
  have a: "Acquire 1 ex_env ex_released = (Err PoolClosed, ex_released)"
    using Acquire_checks_closed_on_entry [where n = 1 and E = ex_env and s = ex_released, THEN conjunct1]
    by (simp add: ex_released_def)
  have b: "Acquire 1 ex_env ex_pool = Acquire_loop 1 ex_env ex_pool"
    using Acquire_checks_closed_on_entry [where n = 1 and E = ex_env and s = ex_pool, THEN conjunct1]
    by (simp add: ex_pool_def)
  with ex_out_acquired have "Acquire_loop 1 ex_env ex_pool = (Ok 10, ex_out)"
    by simp
  with Acquire_checks_closed_on_entry [where n = 1 and E = ex_env and s = ex_pool and b = True,
      THEN conjunct2, THEN conjunct2]
  have "Acquire_loop 1 ex_env (ex_pool\<lparr>closed := True\<rparr>) = (Ok 10, ex_out\<lparr>closed := True\<rparr>)"
    by simp
  with a b show ?thesis by simp
qed

text \<open>
  The claim as stated fails on an iteration that starts after another goroutine's
  \<^verbatim>\<open>Release\<close> has completed: the pool is closed, the iteration does not return
  \<open>PoolClosed\<close> but receives \<^verbatim>\<open>nil\<close> from the closed channel and dereferences it. The
  same state at the entry of \<^verbatim>\<open>Acquire\<close> gives \<open>PoolClosed\<close>.
\<close>

theorem Acquire_loop_no_recheck_counterexample:
  "closed ex_released \<and> Acquire 1 ex_env ex_released = (Err PoolClosed, ex_released) \<and>
   Acquire_loop 1 ex_env ex_released = (Panicked, ex_released) \<and>
   fst (Acquire_loop 1 ex_env ex_released) \<noteq> Err PoolClosed"
  by (simp add: Acquire_def acquire.simps ex_released_def)

section \<open>Acquire hands out live resources\<close>

lemma Acquire_loop_live: "Acquire_loop n E s = (Ok c, s') \<Longrightarrow> \<not> Done E c"
proof (induction n arbitrary: s)
  case 0
  then show ?case by simp
next
  case (Suc n)
  obtain r s1 where a: "acquire s = (r, s1)" by (cases "acquire s")
  show ?case
  proof (cases r)
    case (Ok x)
    show ?thesis
    proof (cases x)
      case None
      with a Ok Suc.prems show ?thesis by simp
    next
      case (Some d)
      show ?thesis
      proof (cases "Done E d")
        case False
        with a Ok Some Suc.prems show ?thesis by simp
      next
        case True
        obtain q s2 where c: "Close E s1 d = (q, s2)" by (cases "Close E s1 d")
        with a Ok Some True Suc.prems have "Acquire_loop n E s2 = (Ok c, s')"
          by (cases q) simp_all
        then show ?thesis by (rule Suc.IH)
      qed
    qed
  qed (use a Suc.prems in simp_all)
qed

text \<open>
  C4, as the code has it. A resource that \<^verbatim>\<open>Acquire\<close> returns had a signal that
  had not fired when it was inspected. When the resource obtained by \<^verbatim>\<open>acquire\<close> has
  a fired signal, \<^verbatim>\<open>Acquire\<close> calls \<^verbatim>\<open>Close\<close> on it and goes on with its next
  iteration from the state \<^verbatim>\<open>Close\<close> leaves, or waits where \<^verbatim>\<open>Close\<close> waits for
  the lock. With the lock free, a positive capacity and the resource's own close
  succeeding, that \<^verbatim>\<open>Close\<close> invokes the resource's close, decrements \<^verbatim>\<open>active\<close> by
  one and sends a notice if none is pending, and \<^verbatim>\<open>Acquire\<close> retries.
\<close>

theorem Acquire_returns_live:
  "(Acquire n E s = (Ok c, s') \<longrightarrow> \<not> Done E c) \<and>
   (\<not> closed s \<and> acquire s = (Ok (Some d), s1) \<and> Done E d \<longrightarrow>
      Acquire (Suc n) E s =
        (if fst (Close E s1 d) = Blocked then (Blocked, snd (Close E s1 d))
         else Acquire_loop n E (snd (Close E s1 d)))) \<and>
   (\<not> closed s \<and> acquire s = (Ok (Some d), s1) \<and> Done E d \<and>
    \<not> mutex s1 \<and> 0 < max' s1 \<and> Conn_Close E d = None \<longrightarrow>
      Acquire (Suc n) E s =
        Acquire_loop n E
          (s1\<lparr>closelog := closelog s1 @ [d], active := active s1 - 1,
              notice := (if notice s1 = 0 then 1 else notice s1)\<rparr>))"
proof -
  have 1: "\<not> Done E c" if "Acquire n E s = (Ok c, s')"
    using that by (auto simp: Acquire_def dest: Acquire_loop_live split: if_splits)
  have 2: "Acquire (Suc n) E s =
        (if fst (Close E s1 d) = Blocked then (Blocked, snd (Close E s1 d))
         else Acquire_loop n E (snd (Close E s1 d)))"
    if a: "\<not> closed s \<and> acquire s = (Ok (Some d), s1) \<and> Done E d"
  proof -
    obtain q s2 where "Close E s1 d = (q, s2)" by (cases "Close E s1 d")
    with a show ?thesis by (cases q) (simp_all add: Acquire_def)
  qed
  have 3: "Acquire (Suc n) E s =
        Acquire_loop n E
          (s1\<lparr>closelog := closelog s1 @ [d], active := active s1 - 1,
              notice := (if notice s1 = 0 then 1 else notice s1)\<rparr>)"
    if a: "\<not> closed s \<and> acquire s = (Ok (Some d), s1) \<and> Done E d \<and>
      \<not> mutex s1 \<and> 0 < max' s1 \<and> Conn_Close E d = None"
  proof -
    from a have "Close E s1 d =
        (Ok (), s1\<lparr>closelog := closelog s1 @ [d], active := active s1 - 1,
              notice := (if notice s1 = 0 then 1 else notice s1)\<rparr>)"
      by (cases s1) (simp add: Close_def)
    with a show ?thesis by (simp add: Acquire_def)
  qed
  from 1 2 3 show ?thesis by blast
qed

theorem Acquire_returns_live_witness:
  "\<not> closed ex_pool \<and> acquire ex_pool = (Ok (Some 10), ex_out) \<and> Done ex_env_expired 10 \<and>
   \<not> mutex ex_out \<and> 0 < max' ex_out \<and> Conn_Close ex_env_expired 10 = None \<and>
   Acquire 2 ex_env_expired ex_pool =
     (Ok 11, ex_pool\<lparr>pool := [], notice := 1, active := 1, closelog := [10]\<rparr>) \<and>
   \<not> Done ex_env_expired 11 \<and>
   Acquire 2 ex_env_expired ex_pool =
     Acquire_loop 1 ex_env_expired (ex_out\<lparr>closelog := [10], active := 1, notice := 1\<rparr>) \<and>
   Acquire 2 ex_env_expired ex_pool =
     Acquire_loop 1 ex_env_expired (snd (Close ex_env_expired ex_out 10))"
proof -
  have h: "\<not> closed ex_pool" "acquire ex_pool = (Ok (Some 10), ex_out)" "Done ex_env_expired 10"
    "\<not> mutex ex_out" "0 < max' ex_out" "Conn_Close ex_env_expired 10 = None"
    by (simp_all add: acquire.simps ex_pool_def ex_out_def ex_env_expired_def)
  have r: "Acquire 2 ex_env_expired ex_pool =
     (Ok 11, ex_pool\<lparr>pool := [], notice := 1, active := 1, closelog := [10]\<rparr>)"
    by (simp add: Acquire_def acquire.simps Close_def ex_pool_def ex_env_expired_def
          numeral_2_eq_2)
  have nb: "fst (Close ex_env_expired ex_out 10) \<noteq> Blocked"
    by (simp add: Close_def ex_pool_def ex_out_def ex_env_expired_def)
  from Acquire_returns_live [where n = 2 and E = ex_env_expired and s = ex_pool and c = 11
      and s' = "ex_pool\<lparr>pool := [], notice := 1, active := 1, closelog := [10]\<rparr>"] r
  have live: "\<not> Done ex_env_expired 11" by simp
  note t = Acquire_returns_live [where n = 1 and E = ex_env_expired and s = ex_pool
      and d = 10 and ?s1.0 = ex_out]
  have hc: "\<not> closed ex_pool \<and> acquire ex_pool = (Ok (Some 10), ex_out) \<and>
      Done ex_env_expired 10"
    and hd: "\<not> closed ex_pool \<and> acquire ex_pool = (Ok (Some 10), ex_out) \<and>
      Done ex_env_expired 10 \<and> \<not> mutex ex_out \<and> 0 < max' ex_out \<and>
      Conn_Close ex_env_expired 10 = None"
    using h by blast+
  note t2 = t [THEN conjunct2, THEN conjunct1, THEN mp, OF hc, unfolded Suc_1]
  note t3 = t [THEN conjunct2, THEN conjunct2, THEN mp, OF hd, unfolded Suc_1]
  from t2 have m: "Acquire 2 ex_env_expired ex_pool =
      Acquire_loop 1 ex_env_expired (snd (Close ex_env_expired ex_out 10))"
    by (simp only: nb if_False)
  from t3
  have "Acquire 2 ex_env_expired ex_pool =
      Acquire_loop 1 ex_env_expired
        (ex_out\<lparr>closelog := closelog ex_out @ [10], active := active ex_out - 1,
            notice := (if notice ex_out = 0 then 1 else notice ex_out)\<rparr>)" .
  moreover have "ex_out\<lparr>closelog := closelog ex_out @ [10], active := active ex_out - 1,
            notice := (if notice ex_out = 0 then 1 else notice ex_out)\<rparr> =
      ex_out\<lparr>closelog := [10], active := 1, notice := 1\<rparr>"
    by (simp add: ex_out_def ex_pool_def)
  ultimately have m3: "Acquire 2 ex_env_expired ex_pool =
     Acquire_loop 1 ex_env_expired (ex_out\<lparr>closelog := [10], active := 1, notice := 1\<rparr>)"
    by (simp only:)
  from h r live m3 m show ?thesis by blast
qed

text \<open>
  The claim as stated, for every popped resource whose signal has fired, fails when
  that resource's own close returns an error: \<^verbatim>\<open>Acquire\<close> pops resource 10, calls
  \<^verbatim>\<open>Close\<close> on it, and \<^verbatim>\<open>active\<close> keeps its value; the call goes on and returns
  resource 11.
\<close>

theorem Acquire_dead_close_fails_counterexample:
  "Done ex_env_expired_broken 10 \<and> acquire ex_pool = (Ok (Some 10), ex_out) \<and>
   Acquire 2 ex_env_expired_broken ex_pool =
     (Ok 11, ex_pool\<lparr>pool := [], mutex := True, closelog := [10]\<rparr>) \<and>
   active (snd (Acquire 2 ex_env_expired_broken ex_pool)) = active ex_pool"
  by (simp add: Acquire_def acquire.simps Close_def ex_pool_def ex_out_def
        ex_env_expired_broken_def numeral_2_eq_2)

text \<open>
  With two such resources in a row the second is popped and never closed: its
  \<^verbatim>\<open>Close\<close> waits for the lock the first one left held.
\<close>

lemma Acquire_second_dead_not_closed_example:
  "Acquire 3 ex_env_all_expired_broken ex_pool =
     (Blocked, ex_pool\<lparr>pool := [], mutex := True, closelog := [10]\<rparr>)"
  by (simp add: Acquire_def acquire.simps Close_def ex_pool_def
        ex_env_all_expired_broken_def numeral_3_eq_3)

section \<open>Close\<close>

text \<open>
  C5, as the code has it. With the lock free and a resource whose own close succeeds,
  \<^verbatim>\<open>Close\<close> invokes that close, decrements \<^verbatim>\<open>active\<close> by exactly one, adds one
  notice if none is pending and none otherwise, and returns ok with the lock free.
\<close>

theorem Close_succeeding:
  assumes "\<not> mutex s" and "Conn_Close E closer = None" and "0 < max' s"
  shows "Close E s closer =
     (Ok (), s\<lparr>closelog := closelog s @ [closer], active := active s - 1,
              notice := (if notice s = 0 then 1 else notice s)\<rparr>)"
  using assms by (cases s) (simp add: Close_def)

theorem Close_succeeding_witness:
  "\<not> mutex ex_out \<and> Conn_Close ex_env 10 = None \<and> 0 < max' ex_out \<and>
   Close ex_env ex_out 10 =
     (Ok (), ex_out\<lparr>closelog := [10], active := 1, notice := 1\<rparr>)"
proof -
  have h: "\<not> mutex ex_out" "Conn_Close ex_env 10 = None" "0 < max' ex_out"
    by (simp_all add: ex_out_def ex_pool_def ex_env_def)
  from Close_succeeding [OF h] h show ?thesis
    by (simp add: ex_out_def ex_pool_def)
qed

text \<open>
  The claim as stated, for every call, fails when the resource's own close returns an
  error: \<^verbatim>\<open>active\<close> keeps its value and no notice is sent.
\<close>

theorem Close_every_call_counterexample:
  "\<not> mutex ex_out \<and> notice ex_out = 0 \<and>
   fst (Close ex_env_broken ex_out 10) = Err (External ''broken pipe'') \<and>
   active (snd (Close ex_env_broken ex_out 10)) = active ex_out \<and>
   notice (snd (Close ex_env_broken ex_out 10)) = 0"
  by (simp add: Close_def ex_out_def ex_pool_def ex_env_broken_def)

section \<open>Release\<close>

text \<open>
  On an open pool with the channel open and the lock free, \<^verbatim>\<open>Release\<close> returns ok;
  it has invoked the close of each of the \<open>k\<close> buffered resources, in order, emptied
  the buffer, decremented \<^verbatim>\<open>active\<close> by \<open>k\<close> and set the closed flag, and \<^verbatim>\<open>Regain\<close>
  on the resulting pool fails with \<open>PoolClosed\<close>.
\<close>

lemma Release_lock_free:
  assumes "\<not> closed s" and "\<not> mutex s" and "\<not> pool_closed s"
  shows "Release s =
     (Ok (), s\<lparr>pool := [], pool_closed := True, active := active s - int (length (pool s)),
              closelog := closelog s @ pool s, closed := True\<rparr>) \<and>
     Regain (snd (Release s)) closer = (Err PoolClosed, snd (Release s)) \<and>
     (active s = int (length (pool s)) \<longrightarrow> active (snd (Release s)) = 0)"
  using assms by (cases s) (simp add: Release_def Release_range_eq Regain_def)

text \<open>
  C6 fails on the code. The pool of capacity two hands out resource 10; the caller
  calls \<^verbatim>\<open>Close\<close> on it and the resource's own close returns an error, so \<^verbatim>\<open>Close\<close>
  returns without unlocking. The pool is open, resource 11 is idle in the buffer and
  nothing is checked out, and \<^verbatim>\<open>Release\<close> waits for the lock for ever: it does not
  return, resource 11 is not closed, \<^verbatim>\<open>active\<close> and the closed flag keep their values.
\<close>

theorem Release_waits_after_failed_close:
  "NewManager ex_runtime 2 ex_builder = (Ok ex_pool, 2) \<and>
   run_owned [(ex_env, CallAcquire 1), (ex_env_broken, CallClose 10)] ex_pool [] =
     Some (ex_locked, []) \<and>
   \<not> closed ex_locked \<and> \<not> pool_closed ex_locked \<and> pool ex_locked = [11] \<and>
   Release ex_locked = (Blocked, ex_locked) \<and>
   closelog ex_locked = [10] \<and> active ex_locked = 2"
proof -
  have "Acquire (Suc 0) ex_env ex_pool = (Ok 10, ex_out)"
    using ex_out_acquired by simp
  moreover have "Close ex_env_broken ex_out 10 = (Err (External ''broken pipe''), ex_locked)"
    by (simp add: Close_def ex_locked_def ex_out_def ex_pool_def ex_env_broken_def)
  ultimately have "run_owned [(ex_env, CallAcquire 1), (ex_env_broken, CallClose 10)] ex_pool [] =
     Some (ex_locked, [])"
    by simp
  moreover have "Release ex_locked = (Blocked, ex_locked)"
    by (simp add: Release_def ex_locked_def ex_out_def ex_pool_def)
  ultimately show ?thesis
    using ex_pool_built by (simp add: ex_locked_def ex_out_def ex_pool_def)
qed

section \<open>A released pool stays released\<close>

lemma exec_closed: "closed s \<Longrightarrow> closed (exec c s)"
  by (cases "(c, s)" rule: exec.cases)
     (auto simp: Acquire_def Regain_def Release_def Close_def Let_def split: option.splits)

lemma run_closed: "closed s \<Longrightarrow> closed (run cs s)"
  by (induction cs arbitrary: s) (simp_all add: exec_closed)

text \<open>
  C7. Once \<^verbatim>\<open>Release\<close> has returned ok, after any further sequence of calls the
  closed flag is still set, and \<^verbatim>\<open>Acquire\<close>, \<^verbatim>\<open>Regain\<close> and \<^verbatim>\<open>Release\<close> each fail
  with \<open>PoolClosed\<close> and leave the state as it is.
\<close>

theorem Release_is_final:
  assumes "Release s = (Ok (), s1)" and "s2 = run cs s1"
  shows "closed s2 \<and> Acquire n E s2 = (Err PoolClosed, s2) \<and>
     Regain s2 closer = (Err PoolClosed, s2) \<and> Release s2 = (Err PoolClosed, s2)"
proof -
  from assms(1) have "closed s1"
    by (auto simp: Release_def split: if_splits)
  with assms(2) have "closed s2" by (simp add: run_closed)
  then show ?thesis by (simp add: Acquire_def Regain_def Release_def)
qed

theorem Release_is_final_witness:
  "Release ex_pool = (Ok (), ex_released) \<and>
   closed (run ex_after ex_released) \<and>
   Acquire 5 ex_env (run ex_after ex_released) = (Err PoolClosed, run ex_after ex_released) \<and>
   Regain (run ex_after ex_released) 11 = (Err PoolClosed, run ex_after ex_released) \<and>
   Release (run ex_after ex_released) = (Err PoolClosed, run ex_after ex_released)"
  using Release_is_final [OF ex_released_by_Release refl, of ex_after 5 ex_env 11]
    ex_released_by_Release by simp

section \<open>Acquire, Regain, Acquire\<close>

text \<open>
  C8, as the code has it. The buffer is first in, first out. After \<^verbatim>\<open>Acquire\<close> has
  returned \<open>h\<close> and \<^verbatim>\<open>Regain\<close> has put it back, the next \<^verbatim>\<open>Acquire\<close> returns \<open>h\<close>
  again when the buffer was empty in between and the signal of \<open>h\<close> has not fired; the
  pool is then in the state it was in after the first \<^verbatim>\<open>Acquire\<close>. When other
  resources were idle and the signal of the oldest of them, \<open>x\<close>, has not fired, the
  next \<^verbatim>\<open>Acquire\<close> returns \<open>x\<close>, and \<open>h\<close> waits at the end of the buffer.
\<close>

theorem round_trip:
  assumes "Acquire (Suc n) E s = (Ok h, s1)" and "Regain s1 h = (Ok (), s2)"
  shows "(pool s1 = [] \<and> \<not> Done E' h \<longrightarrow> Acquire (Suc m) E' s2 = (Ok h, s1)) \<and>
     (pool s1 = x # xs \<and> \<not> Done E' x \<longrightarrow>
        Acquire (Suc m) E' s2 = (Ok x, s1\<lparr>pool := xs @ [h]\<rparr>))"
proof -
  from assms(2) have o: "\<not> closed s1" and s2: "s2 = s1\<lparr>pool := pool s1 @ [h]\<rparr>"
    by (auto simp: Regain_def split: if_splits)
  show ?thesis
  proof (intro conjI impI)
    assume a: "pool s1 = [] \<and> \<not> Done E' h"
    then have "acquire s2 = (Ok (Some h), s1)"
      using s2 by (subst acquire.simps) simp
    with a o s2 show "Acquire (Suc m) E' s2 = (Ok h, s1)"
      by (simp add: Acquire_def)
  next
    assume a: "pool s1 = x # xs \<and> \<not> Done E' x"
    then have "acquire s2 = (Ok (Some x), s1\<lparr>pool := xs @ [h]\<rparr>)"
      using s2 by (subst acquire.simps) simp
    with a o s2 show "Acquire (Suc m) E' s2 = (Ok x, s1\<lparr>pool := xs @ [h]\<rparr>)"
      by (simp add: Acquire_def)
  qed
qed

theorem round_trip_witness:
  "Acquire 1 ex_env ex_single = (Ok 10, ex_single\<lparr>pool := []\<rparr>) \<and>
   Regain (ex_single\<lparr>pool := []\<rparr>) 10 = (Ok (), ex_single) \<and>
   pool (ex_single\<lparr>pool := []\<rparr>) = [] \<and> \<not> Done ex_env 10 \<and>
   Acquire 1 ex_env ex_single = (Ok 10, ex_single\<lparr>pool := []\<rparr>) \<and>
   Acquire 1 ex_env ex_pool = (Ok 10, ex_out) \<and>
   Regain ex_out 10 = (Ok (), ex_out\<lparr>pool := [11, 10]\<rparr>) \<and>
   pool ex_out = [11] \<and> \<not> Done ex_env 11 \<and>
   Acquire 1 ex_env (ex_out\<lparr>pool := [11, 10]\<rparr>) = (Ok 11, ex_out\<lparr>pool := [10]\<rparr>)"
proof -
  have h: "Acquire (Suc 0) ex_env ex_single = (Ok 10, ex_single\<lparr>pool := []\<rparr>)"
    "Regain (ex_single\<lparr>pool := []\<rparr>) 10 = (Ok (), ex_single)"
    by (simp_all add: Acquire_def acquire.simps Regain_def ex_single_def ex_env_def)
  have g: "Acquire (Suc 0) ex_env ex_pool = (Ok 10, ex_out)"
    "Regain ex_out 10 = (Ok (), ex_out\<lparr>pool := [11, 10]\<rparr>)"
    by (simp_all add: Acquire_def acquire.simps Regain_def ex_pool_def ex_out_def ex_env_def)
  have p: "pool (ex_single\<lparr>pool := []\<rparr>) = []" "\<not> Done ex_env 10"
    "pool ex_out = [11]" "\<not> Done ex_env 11"
    by (simp_all add: ex_out_def ex_env_def)
  from round_trip [OF h, of ex_env 0 0 "[]"] p
  have a: "Acquire (Suc 0) ex_env ex_single = (Ok 10, ex_single\<lparr>pool := []\<rparr>)"
    by simp
  from round_trip [OF g, of ex_env 0 11 "[]"] p
  have b: "Acquire (Suc 0) ex_env (ex_out\<lparr>pool := [11, 10]\<rparr>) = (Ok 11, ex_out\<lparr>pool := [10]\<rparr>)"
    by simp
  from a b h g p show ?thesis by simp
qed

text \<open>
  The claim as stated fails on a pool of capacity two with both resources idle: the
  round trip of resource 10 is followed by resource 11.
\<close>

theorem round_trip_counterexample:
  "Acquire 1 ex_env ex_pool = (Ok 10, ex_out) \<and>
   Regain ex_out 10 = (Ok (), ex_out\<lparr>pool := [11, 10]\<rparr>) \<and>
   Acquire 1 ex_env (ex_out\<lparr>pool := [11, 10]\<rparr>) = (Ok 11, ex_out\<lparr>pool := [10]\<rparr>) \<and>
   fst (Acquire 1 ex_env (ex_out\<lparr>pool := [11, 10]\<rparr>)) \<noteq> Ok 10"
  by (simp add: Acquire_def acquire.simps Regain_def ex_pool_def ex_out_def ex_env_def)

text \<open>
  It also fails on a pool of capacity one when the signal of the resource fires
  between \<^verbatim>\<open>Regain\<close> and the next \<^verbatim>\<open>Acquire\<close>: the resource is closed and a new one
  is built.
\<close>

lemma round_trip_expired_example:
  "Acquire 1 ex_env ex_single = (Ok 10, ex_single\<lparr>pool := []\<rparr>) \<and>
   Regain (ex_single\<lparr>pool := []\<rparr>) 10 = (Ok (), ex_single) \<and>
   Acquire 2 ex_env_expired ex_single =
     (Ok 11, ex_single\<lparr>pool := [], notice := 1, ncalls := 2, closelog := [10]\<rparr>)"
  by (simp add: Acquire_def acquire.simps Regain_def Close_def ex_single_def ex_env_def
        ex_env_expired_def ex_builder_def numeral_2_eq_2)

section \<open>What Regain, Close and Release wait for\<close>

text \<open>
  C9, as the code has it. \<^verbatim>\<open>Regain\<close> takes no lock and sends on the bounded channel:
  on an open pool it returns ok at once, with the resource at the end of the buffer,
  exactly when the buffer holds fewer than \<open>max\<close> resources, and waits on the send
  when the buffer is full. The buffer has room whenever the resource returned is one
  that is checked out, in a history where callers return and close only what they
  hold. With the lock free, \<^verbatim>\<open>Close\<close> (capacity positive) and \<^verbatim>\<open>Release\<close> wait for
  nothing.
\<close>

theorem Regain_room:
  "(\<not> closed s \<and> \<not> pool_closed s \<longrightarrow>
      Regain s closer =
        (if length (pool s) < nat (max' s) then (Ok (), s\<lparr>pool := pool s @ [closer]\<rparr>)
         else (Blocked, s))) \<and>
   (NewManager R mx b = (Ok s0, k) \<and> run_owned cs s0 [] = Some (s, h) \<and> closer \<in> set h \<and>
    \<not> closed s \<longrightarrow>
      Regain s closer = (Ok (), s\<lparr>pool := pool s @ [closer]\<rparr>)) \<and>
   (\<not> mutex s \<and> 0 < max' s \<longrightarrow> fst (Close E s closer) \<noteq> Blocked) \<and>
   (\<not> mutex s \<longrightarrow> fst (Release s) \<noteq> Blocked)"
proof -
  have 1: "Regain s closer =
        (if length (pool s) < nat (max' s) then (Ok (), s\<lparr>pool := pool s @ [closer]\<rparr>)
         else (Blocked, s))"
    if "\<not> closed s \<and> \<not> pool_closed s"
    using that by (simp add: Regain_def)
  have 2: "Regain s closer = (Ok (), s\<lparr>pool := pool s @ [closer]\<rparr>)"
    if "NewManager R mx b = (Ok s0, k) \<and> run_owned cs s0 [] = Some (s, h) \<and> closer \<in> set h \<and>
      \<not> closed s"
    using that by (auto intro: checked_out_has_room)
  have 3: "fst (Close E s closer) \<noteq> Blocked" if "\<not> mutex s \<and> 0 < max' s"
    using that by (auto simp: Close_def Let_def split: option.splits)
  have 4: "fst (Release s) \<noteq> Blocked" if "\<not> mutex s"
    using that by (simp add: Release_def)
  from 1 2 3 4 show ?thesis by blast
qed

theorem Regain_room_witness:
  "\<not> closed ex_out \<and> \<not> pool_closed ex_out \<and> \<not> mutex ex_out \<and> 0 < max' ex_out \<and>
   NewManager ex_runtime 2 ex_builder = (Ok ex_pool, 2) \<and>
   run_owned [(ex_env, CallAcquire 1)] ex_pool [] = Some (ex_out, [10]) \<and>
   Regain ex_out 10 = (Ok (), ex_out\<lparr>pool := [11, 10]\<rparr>) \<and>
   fst (Close ex_env ex_out 10) \<noteq> Blocked \<and> fst (Release ex_out) \<noteq> Blocked"
proof -
  have "Acquire (Suc 0) ex_env ex_pool = (Ok 10, ex_out)"
    using ex_out_acquired by simp
  then have o: "run_owned [(ex_env, CallAcquire 1)] ex_pool [] = Some (ex_out, [10])"
    by simp
  have h: "\<not> closed ex_out" "\<not> pool_closed ex_out" "\<not> mutex ex_out" "0 < max' ex_out"
    by (simp_all add: ex_out_def ex_pool_def)
  from Regain_room [where s = ex_out and closer = 10 and E = ex_env and mx = 2
      and b = ex_builder and ?s0.0 = ex_pool and k = 2 and cs = "[(ex_env, CallAcquire 1)]"
      and h = "[10]"] ex_pool_built o h
  show ?thesis
    by (simp add: ex_out_def ex_pool_def)
qed

text \<open>
  The claim as stated, for every open pool state, fails on the pool as \<^verbatim>\<open>NewManager\<close>
  returns it: the buffer is full and \<^verbatim>\<open>Regain\<close> waits on the send.
\<close>

theorem Regain_waits_when_full_counterexample:
  "\<not> closed ex_pool \<and> length (pool ex_pool) = nat (max' ex_pool) \<and>
   Regain ex_pool 10 = (Blocked, ex_pool)"
  by (simp add: Regain_def ex_pool_def)

section \<open>Close when the resource's close fails\<close>

text \<open>
  C10. When the resource's own close returns an error, \<^verbatim>\<open>Close\<close> returns that error;
  \<^verbatim>\<open>active\<close> is not decremented and no notice is sent: \<^verbatim>\<open>active\<close>, the notice
  channel, the buffer, the closed flag and \<open>max\<close> are as before the call. What has
  changed is outside this bookkeeping: the resource's close has been invoked, and the
  lock is still held when \<^verbatim>\<open>Close\<close> returns.
\<close>

theorem Close_failing:
  assumes "\<not> mutex s" and "Conn_Close E closer = Some e"
  shows "Close E s closer = (Err e, s\<lparr>mutex := True, closelog := closelog s @ [closer]\<rparr>) \<and>
     active (snd (Close E s closer)) = active s \<and>
     notice (snd (Close E s closer)) = notice s \<and>
     pool (snd (Close E s closer)) = pool s \<and>
     closed (snd (Close E s closer)) = closed s \<and>
     max' (snd (Close E s closer)) = max' s"
  using assms by (simp add: Close_def)

theorem Close_failing_witness:
  "\<not> mutex ex_out \<and> Conn_Close ex_env_broken 10 = Some (External ''broken pipe'') \<and>
   Close ex_env_broken ex_out 10 =
     (Err (External ''broken pipe''), ex_out\<lparr>mutex := True, closelog := [10]\<rparr>) \<and>
   active (snd (Close ex_env_broken ex_out 10)) = 2 \<and>
   notice (snd (Close ex_env_broken ex_out 10)) = 0"
proof -
  have h: "\<not> mutex ex_out" "Conn_Close ex_env_broken 10 = Some (External ''broken pipe'')"
    by (simp_all add: ex_out_def ex_pool_def ex_env_broken_def)
  from Close_failing [OF h] h show ?thesis
    by (simp add: ex_out_def ex_pool_def)
qed

text \<open>
  What the held lock does to the pool afterwards: the next \<^verbatim>\<open>Close\<close> and
  \<^verbatim>\<open>Release\<close> wait for it, and so does an \<^verbatim>\<open>Acquire\<close> that finds the buffer empty.
\<close>

lemma lock_held_after_failed_close_example:
  "snd (Close ex_env_broken ex_out 10) = ex_out\<lparr>mutex := True, closelog := [10]\<rparr> \<and>
   fst (Close ex_env (ex_out\<lparr>mutex := True, closelog := [10]\<rparr>) 11) = Blocked \<and>
   fst (Release (ex_out\<lparr>mutex := True, closelog := [10]\<rparr>)) = Blocked \<and>
   fst (Acquire 1 ex_env (ex_out\<lparr>mutex := True, closelog := [10], pool := []\<rparr>)) = Blocked"
  by (simp add: Close_def Release_def Acquire_def acquire.simps ex_out_def ex_pool_def
        ex_env_broken_def ex_env_def)

end
